theory Spec2Isabelle
  imports Main
begin

section \<open>hikepy: stitching the ways of an OSM relation into a track\<close>

text \<open>
  The development embeds the track reconstruction of \<^verbatim>\<open>src/py/osm_query.py\<close>
  (\<^verbatim>\<open>get_relation\<close>, \<^verbatim>\<open>get_relation_members\<close>, \<^verbatim>\<open>create_track_points\<close>) and the
  memoised lookups in front of it. OSM identifiers are Python integers and are modelled
  as \<open>int\<close>; they are assumed to fit the 64-bit cells numpy stores them in.
\<close>

subsection \<open>Errors\<close>

text \<open>
  \<open>NoActiveException\<close> is what a bare \<^verbatim>\<open>raise\<close> outside a handler throws,
  \<open>TypeError\<close> is what \<^verbatim>\<open>int(series)\<close> throws when the series does not hold exactly
  one value, \<open>IndexError\<close> is an out-of-range subscript, \<open>ApiError\<close> stands for
  whatever the remote client throws when a lookup fails.
\<close>

datatype error = NoActiveException | TypeError | IndexError | ApiError

subsection \<open>The memoised lookups\<close>

text \<open>
  Every lookup is decorated with \<^verbatim>\<open>lru_cache(maxsize=...)\<close> of \<^verbatim>\<open>functools32\<close>.
  The decorator keeps an ordered dictionary, least recently used entry first, and two
  counters. The ordered dictionary is the list of its items. \<open>fetched\<close> is not a field
  of the decorator: it records the arguments the wrapped function was called with, so
  that a statement can say whether the remote source was asked.
\<close>

record ('k, 'v) lru_state =
  cache :: "('k \<times> 'v) list"
  hits :: nat
  misses :: nat
  fetched :: "'k list"

text \<open>\<^verbatim>\<open>cache.move_to_end(key)\<close>.\<close>

definition cache_renew :: "'k \<Rightarrow> ('k \<times> 'v) list \<Rightarrow> ('k \<times> 'v) list" where
  "cache_renew key c =
     (case map_of c key of
        None \<Rightarrow> c
      | Some v \<Rightarrow> filter (\<lambda>kv. fst kv \<noteq> key) c @ [(key, v)])"

text \<open>\<^verbatim>\<open>cache[key] = result\<close>: a new key goes to the end, a present one keeps its place.\<close>

definition cache_set :: "'k \<Rightarrow> 'v \<Rightarrow> ('k \<times> 'v) list \<Rightarrow> ('k \<times> 'v) list" where
  "cache_set key v c =
     (if key \<in> fst ` set c then map (\<lambda>kv. if fst kv = key then (key, v) else kv) c
      else c @ [(key, v)])"

text \<open>
  The wrapper the decorator returns, for a positive \<^verbatim>\<open>maxsize\<close>. On a hit the entry
  is renewed and returned. On a miss the wrapped function runs; its exception leaves the
  wrapper with nothing stored; its result is stored and, when the dictionary has grown
  beyond \<^verbatim>\<open>maxsize\<close>, the first item is popped (\<^verbatim>\<open>cache.popitem(0)\<close>).
\<close>

definition lru_wrapper ::
  "nat \<Rightarrow> ('k \<Rightarrow> error + 'v) \<Rightarrow> 'k \<Rightarrow> ('k, 'v) lru_state \<Rightarrow>
   (error + 'v) \<times> ('k, 'v) lru_state" where
  "lru_wrapper maxsize user_function key s =
     (case map_of (cache s) key of
        Some result \<Rightarrow>
          (Inr result, s\<lparr>cache := cache_renew key (cache s), hits := hits s + 1\<rparr>)
      | None \<Rightarrow>
          (case user_function key of
             Inl e \<Rightarrow> (Inl e, s\<lparr>fetched := fetched s @ [key]\<rparr>)
           | Inr result \<Rightarrow>
               (let c = cache_set key result (cache s)
                in (Inr result,
                    s\<lparr>cache := (if length c > maxsize then tl c else c),
                      misses := misses s + 1,
                      fetched := fetched s @ [key]\<rparr>))))"

definition lru_empty :: "('k, 'v) lru_state" where
  "lru_empty = \<lparr>cache = [], hits = 0, misses = 0, fetched = []\<rparr>"

text \<open>
  The four lookups. The remote calls (\<^verbatim>\<open>osm_api.RelationGet\<close>, the Overpass query,
  \<^verbatim>\<open>osm_api.WayGet\<close>, \<^verbatim>\<open>osm_api.NodeGet\<close>) are parameters.
\<close>

definition get_relation_by_id ::
  "(int \<Rightarrow> error + 'v) \<Rightarrow> int \<Rightarrow> (int, 'v) lru_state \<Rightarrow> (error + 'v) \<times> (int, 'v) lru_state" where
  "get_relation_by_id RelationGet = lru_wrapper 128 RelationGet"

definition get_relation_by_name ::
  "(string \<Rightarrow> error + 'v) \<Rightarrow> string \<Rightarrow> (string, 'v) lru_state \<Rightarrow>
   (error + 'v) \<times> (string, 'v) lru_state" where
  "get_relation_by_name Get = lru_wrapper 128 Get"

definition get_way_by_id ::
  "(int \<Rightarrow> error + 'v) \<Rightarrow> int \<Rightarrow> (int, 'v) lru_state \<Rightarrow> (error + 'v) \<times> (int, 'v) lru_state" where
  "get_way_by_id WayGet = lru_wrapper 2048 WayGet"

definition get_node_by_id ::
  "(int \<Rightarrow> error + 'v) \<Rightarrow> int \<Rightarrow> (int, 'v) lru_state \<Rightarrow> (error + 'v) \<times> (int, 'v) lru_state" where
  "get_node_by_id NodeGet = lru_wrapper 4096 NodeGet"

text \<open>A sequence of calls of one lookup, results dropped.\<close>

fun calls :: "('k \<Rightarrow> 's \<Rightarrow> 'r \<times> 's) \<Rightarrow> 'k list \<Rightarrow> 's \<Rightarrow> 's" where
  "calls lookup [] s = s"
| "calls lookup (k # ks) s = calls lookup ks (snd (lookup k s))"

text \<open>
  The reference for the least-recently-used discipline, from the words of the
  specification: of the keys used so far (\<open>ks\<close>, oldest use first) the cache holds the
  \<open>n\<close> most recently used ones, least recent first. \<open>remdups\<close> keeps the last occurrence
  of every key.
\<close>

definition most_recent :: "nat \<Rightarrow> 'k list \<Rightarrow> 'k list" where
  "most_recent n ks = drop (length (remdups ks) - n) (remdups ks)"

text \<open>
  \<open>lru_memoised n f lookup\<close>: \<open>lookup\<close> memoises the remote function \<open>f\<close> in a cache of
  capacity \<open>n\<close> with the least-recently-used discipline.
  \<^item> A call for a key that is not stored asks the source and, when it answers, returns
    and stores the answer; the other entries keep their values and their order, and
    only when the capacity is exceeded the first one is dropped.
  \<^item> A call for a stored key returns the stored value, does not ask the source, and
    makes the key the most recently used one; every entry keeps its value.
  \<^item> After any sequence of successful calls on an empty cache the stored keys are the
    \<open>n\<close> most recently used ones, each with the value the source gives for it.
  \<^item> After \<open>n\<close> distinct keys, one more distinct key evicts the first of them, the
    least recently used, and nothing else.
  \<^item> A call for a key that is not stored and for which the source fails passes the
    failure on and stores nothing.
  \<^item> After any sequence of calls on an empty cache, a call returns what the source
    returns for the key, whether it is served from the cache or not.
  \<^item> After any sequence of successful calls on an empty cache, a call for one of the
    \<open>n\<close> most recently used keys does not ask the source.
\<close>

definition lru_memoised ::
  "nat \<Rightarrow> ('k \<Rightarrow> error + 'v) \<Rightarrow>
   ('k \<Rightarrow> ('k, 'v) lru_state \<Rightarrow> (error + 'v) \<times> ('k, 'v) lru_state) \<Rightarrow> bool" where
  "lru_memoised n f lookup \<longleftrightarrow>
     (\<forall>s key v. map_of (cache s) key = None \<and> f key = Inr v \<longrightarrow>
        fst (lookup key s) = Inr v \<and>
        fetched (snd (lookup key s)) = fetched s @ [key] \<and>
        map_of (cache (snd (lookup key s))) key = Some v \<and>
        cache (snd (lookup key s)) =
          (if n < length (cache s) + 1 then tl (cache s @ [(key, v)])
           else cache s @ [(key, v)])) \<and>
     (\<forall>s key v. map_of (cache s) key = Some v \<longrightarrow>
        fst (lookup key s) = Inr v \<and>
        fetched (snd (lookup key s)) = fetched s \<and>
        map fst (cache (snd (lookup key s))) =
          filter (\<lambda>k. k \<noteq> key) (map fst (cache s)) @ [key] \<and>
        cache (snd (lookup key s)) =
          filter (\<lambda>kv. fst kv \<noteq> key) (cache s) @ [(key, v)] \<and>
        (distinct (map fst (cache s)) \<longrightarrow> set (cache (snd (lookup key s))) = set (cache s))) \<and>
     (\<forall>ks. (\<forall>k\<in>set ks. \<exists>v. f k = Inr v) \<longrightarrow>
        map fst (cache (calls lookup ks lru_empty)) = most_recent n ks \<and>
        list_all (\<lambda>kv. f (fst kv) = Inr (snd kv)) (cache (calls lookup ks lru_empty))) \<and>
     (\<forall>ks k. distinct ks \<and> length ks = n \<and> k \<notin> set ks \<and> (\<forall>k'\<in>set (ks @ [k]). \<exists>v. f k' = Inr v) \<longrightarrow>
        map fst (cache (calls lookup (ks @ [k]) lru_empty)) = tl ks @ [k]) \<and>
     (\<forall>s key e. map_of (cache s) key = None \<and> f key = Inl e \<longrightarrow>
        fst (lookup key s) = Inl e \<and>
        cache (snd (lookup key s)) = cache s \<and>
        fetched (snd (lookup key s)) = fetched s @ [key]) \<and>
     (\<forall>ks key. fst (lookup key (calls lookup ks lru_empty)) = f key) \<and>
     (\<forall>ks key. (\<forall>k\<in>set ks. \<exists>v. f k = Inr v) \<and> key \<in> set (most_recent n ks) \<longrightarrow>
        fetched (snd (lookup key (calls lookup ks lru_empty))) =
          fetched (calls lookup ks lru_empty))"

text \<open>A cache agrees with the remote source when every stored value is what the source returns.\<close>

definition cache_ok :: "('k \<Rightarrow> error + 'v) \<Rightarrow> ('k, 'v) lru_state \<Rightarrow> bool" where
  "cache_ok f s \<longleftrightarrow> distinct (map fst (cache s)) \<and> list_all (\<lambda>kv. f (fst kv) = Inr (snd kv)) (cache s)"

subsection \<open>The edge table\<close>

text \<open>
  The data frame built by \<^verbatim>\<open>get_relation\<close> has the columns \<^verbatim>\<open>way\<close>, \<^verbatim>\<open>begin\<close>
  and \<^verbatim>\<open>end\<close> and the default index \<open>0, 1, \<dots>, n - 1\<close>, so a frame is the list
  of its rows and the label of a row is its position.
\<close>

record row =
  r_way :: int
  r_begin :: int
  r_end :: int

type_synonym dataframe = "row list"

datatype column = Begin | End

fun col :: "column \<Rightarrow> row \<Rightarrow> int" where
  "col Begin r = r_begin r"
| "col End r = r_end r"

text \<open>
  \<^verbatim>\<open>x in df.begin\<close>: membership in a pandas series tests the index labels, not
  the values.
\<close>

definition in_index :: "dataframe \<Rightarrow> int \<Rightarrow> bool" where
  "in_index df x \<longleftrightarrow> 0 \<le> x \<and> x < int (length df)"

text \<open>
  \<^verbatim>\<open>int(series)\<close>: the value of a one-element series, \<^verbatim>\<open>TypeError\<close> otherwise.
  A series is modelled by the list of its values.
\<close>

definition series_int :: "int list \<Rightarrow> error + int" where
  "series_int s = (case s of [v] \<Rightarrow> Inr v | _ \<Rightarrow> Inl TypeError)"

subsection \<open>Building the edge table\<close>

text \<open>
  A relation member is a dictionary with the keys \<^verbatim>\<open>type\<close>, \<^verbatim>\<open>ref\<close> and
  \<^verbatim>\<open>role\<close>; a way dictionary carries the ordered node list under \<^verbatim>\<open>nd\<close>; a
  relation dictionary carries its members under \<^verbatim>\<open>member\<close>.
\<close>

record member_rec =
  m_type :: string
  m_ref :: int
  m_role :: string

record way_rec =
  w_id :: int
  w_nd :: "int list"

record relation_rec =
  rel_id :: int
  members :: "member_rec list"

text \<open>
  \<^verbatim>\<open>get_way_nodes\<close>: the node list of the member's way, \<^verbatim>\<open>None\<close> on any
  exception. The parameter \<open>way_by_id\<close> is what the memoised \<^verbatim>\<open>get_way_by_id\<close>
  returns or raises for a way id; against an unchanging source that is what the source
  itself returns or raises (\<open>lru_wrapper_transparent\<close> below).
\<close>

definition get_way_nodes :: "(int \<Rightarrow> error + way_rec) \<Rightarrow> member_rec \<Rightarrow> int list option" where
  "get_way_nodes way_by_id way =
     (case way_by_id (m_ref way) of Inr w \<Rightarrow> Some (w_nd w) | Inl _ \<Rightarrow> None)"

text \<open>
  \<^verbatim>\<open>get_relation_nodes\<close>: the \<^verbatim>\<open>for\<close> loop over the members with its four
  accumulators. \<^verbatim>\<open>if nd:\<close> is false for \<^verbatim>\<open>None\<close> and for the empty list.
\<close>

fun relation_nodes_loop ::
  "(int \<Rightarrow> error + way_rec) \<Rightarrow> member_rec list \<Rightarrow>
   int list \<times> int list \<times> int list \<times> int list list \<Rightarrow>
   int list \<times> int list \<times> int list \<times> int list list" where
  "relation_nodes_loop way_by_id [] acc = acc"
| "relation_nodes_loop way_by_id (way # ways) (l_way, l_begin, l_end, l_nodes) =
     (case get_way_nodes way_by_id way of
        None \<Rightarrow> relation_nodes_loop way_by_id ways (l_way, l_begin, l_end, l_nodes)
      | Some nd \<Rightarrow>
          (if nd \<noteq> [] then
             relation_nodes_loop way_by_id ways
               (l_way @ [m_ref way], l_begin @ [hd nd], l_end @ [last nd], l_nodes @ [nd])
           else relation_nodes_loop way_by_id ways (l_way, l_begin, l_end, l_nodes)))"

definition get_relation_nodes ::
  "(int \<Rightarrow> error + way_rec) \<Rightarrow> member_rec list \<Rightarrow>
   int list \<times> int list \<times> int list \<times> int list list" where
  "get_relation_nodes way_by_id ways =
     relation_nodes_loop way_by_id ways ([], [], [], [])"

text \<open>
  \<^verbatim>\<open>pd.DataFrame(np.array([l_way, l_begin, l_end]).transpose(), ...)\<close>: row \<open>i\<close>
  holds the \<open>i\<close>-th entry of each of the three lists, which have one length here.
\<close>

definition data_frame :: "int list \<Rightarrow> int list \<Rightarrow> int list \<Rightarrow> dataframe" where
  "data_frame l_way l_begin l_end =
     map (\<lambda>(w, b, e). \<lparr>r_way = w, r_begin = b, r_end = e\<rparr>) (zip l_way (zip l_begin l_end))"

definition get_relation ::
  "(int \<Rightarrow> error + way_rec) \<Rightarrow> member_rec list \<Rightarrow> dataframe \<times> int list list" where
  "get_relation way_by_id ways =
     (case get_relation_nodes way_by_id ways of
        (l_way, l_begin, l_end, l_nodes) \<Rightarrow> (data_frame l_way l_begin l_end, l_nodes))"

text \<open>\<^verbatim>\<open>skip_ways\<close> with the one keyword \<^verbatim>\<open>role\<close> it is called with.\<close>

definition skip_ways :: "member_rec list \<Rightarrow> string \<Rightarrow> member_rec list" where
  "skip_ways ways role = filter (\<lambda>way. \<not> (m_role way = role)) ways"

definition get_relation_members ::
  "(int \<Rightarrow> error + way_rec) \<Rightarrow> relation_rec \<Rightarrow> bool \<Rightarrow> string \<Rightarrow> dataframe \<times> int list list" where
  "get_relation_members way_by_id relation skip role =
     (let ms = (if skip then skip_ways (members relation) role else members relation)
      in get_relation way_by_id ms)"

subsection \<open>The helpers of \<^verbatim>\<open>create_track_points\<close>\<close>

text \<open>
  \<^verbatim>\<open>check_node\<close>. With \<^verbatim>\<open>current_way\<close> still \<^verbatim>\<open>None\<close> the mask is
  \<^verbatim>\<open>df[node] == current_node\<close>; afterwards it is
  \<^verbatim>\<open>~(df.way == int(current_way)) & (df[node] == current_node)\<close>. The result is the
  \<^verbatim>\<open>way\<close> column of the selected rows, in table order; an empty selection and a
  current node that is an index label both end in a bare \<^verbatim>\<open>raise\<close>.
\<close>

definition check_node ::
  "dataframe \<Rightarrow> int list option \<Rightarrow> int \<Rightarrow> column \<Rightarrow> error + int list" where
  "check_node df current_way current_node node =
     (if \<not> in_index df current_node then
        (case current_way of
           None \<Rightarrow>
             (let way = map r_way (filter (\<lambda>r. col node r = current_node) df)
              in if way = [] then Inl NoActiveException else Inr way)
         | Some cw \<Rightarrow>
             (case series_int cw of
                Inl e \<Rightarrow> Inl e
              | Inr w \<Rightarrow>
                  (let way = map r_way
                         (filter (\<lambda>r. \<not> (r_way r = w) \<and> col node r = current_node) df)
                   in if way = [] then Inl NoActiveException else Inr way)))
      else Inl NoActiveException)"

text \<open>
  \<^verbatim>\<open>get_segment\<close>: \<^verbatim>\<open>int(df[df.way == int(current_way)].index[0])\<close>, the label of
  the first row carrying the way id.
\<close>

definition get_segment :: "dataframe \<Rightarrow> int list \<Rightarrow> error + nat" where
  "get_segment df current_way =
     (case series_int current_way of
        Inl e \<Rightarrow> Inl e
      | Inr w \<Rightarrow>
          (case filter (\<lambda>i. r_way (df ! i) = w) [0..<length df] of
             [] \<Rightarrow> Inl IndexError
           | i # _ \<Rightarrow> Inr i))"

text \<open>\<^verbatim>\<open>get_nodes\<close>: a copy of the segment's node list, reversed on request.\<close>

definition get_nodes :: "int list list \<Rightarrow> nat \<Rightarrow> bool \<Rightarrow> error + int list" where
  "get_nodes nodes current_segment reverse =
     (if current_segment < length nodes then
        (let list_of_nodes = nodes ! current_segment
         in Inr (if reverse then rev list_of_nodes else list_of_nodes))
      else Inl IndexError)"

text \<open>
  \<^verbatim>\<open>extend_track_points\<close>: \<^verbatim>\<open>list_of_nodes[:-1]\<close> when reversed,
  \<^verbatim>\<open>list_of_nodes[1:]\<close> otherwise.
\<close>

definition extend_track_points :: "int list \<Rightarrow> int list \<Rightarrow> bool \<Rightarrow> int list" where
  "extend_track_points track_points list_of_nodes reverse =
     (if reverse then track_points @ butlast list_of_nodes
      else track_points @ tl list_of_nodes)"

text \<open>\<^verbatim>\<open>get_node_list\<close>: \<^verbatim>\<open>list_of_nodes[-1]\<close>.\<close>

definition get_node_list :: "int list \<Rightarrow> error + int" where
  "get_node_list list_of_nodes =
     (if list_of_nodes = [] then Inl IndexError else Inr (last list_of_nodes))"

text \<open>
  The nested \<^verbatim>\<open>try\<close> of the loop: the begin column is searched first; any exception
  there starts the search of the end column with \<^verbatim>\<open>reverse = True\<close>; any exception
  there leaves the loop (\<open>None\<close>).
\<close>

definition find_way :: "dataframe \<Rightarrow> int list option \<Rightarrow> int \<Rightarrow> (bool \<times> int list) option" where
  "find_way df current_way current_node =
     (case check_node df current_way current_node Begin of
        Inr way \<Rightarrow> Some (False, way)
      | Inl _ \<Rightarrow>
          (case check_node df current_way current_node End of
             Inr way \<Rightarrow> Some (True, way)
           | Inl _ \<Rightarrow> None))"

text \<open>
  One pass through the body of \<^verbatim>\<open>while True\<close> after a way was found. The calls of
  \<^verbatim>\<open>get_segment\<close>, \<^verbatim>\<open>get_nodes\<close> and \<^verbatim>\<open>get_node_list\<close> are outside the
  \<^verbatim>\<open>try\<close>, so their exceptions leave \<^verbatim>\<open>create_track_points\<close>.
\<close>

definition track_step ::
  "dataframe \<Rightarrow> int list list \<Rightarrow> bool \<Rightarrow> int list \<Rightarrow> int list \<Rightarrow> error + (int \<times> int list)" where
  "track_step df nodes reverse current_way track_points =
     (case get_segment df current_way of
        Inl e \<Rightarrow> Inl e
      | Inr current_segment \<Rightarrow>
          (case get_nodes nodes current_segment reverse of
             Inl e \<Rightarrow> Inl e
           | Inr list_of_nodes \<Rightarrow>
               (case get_node_list list_of_nodes of
                  Inl e \<Rightarrow> Inl e
                | Inr current_node \<Rightarrow>
                    Inr (current_node,
                         extend_track_points track_points list_of_nodes reverse))))"

text \<open>
  The loop. It need not end (a relation with a cycle is walked for ever), so the result
  is an option: \<open>None\<close> is a run that never returns, \<open>Some (Inl e)\<close> an exception that
  leaves the function, \<open>Some (Inr t)\<close> the returned track.
\<close>

partial_function (option) track_loop ::
  "dataframe \<Rightarrow> int list list \<Rightarrow> int list option \<Rightarrow> int \<Rightarrow> int list \<Rightarrow> (error + int list) option"
where
  "track_loop df nodes current_way current_node track_points =
     (case find_way df current_way current_node of
        None \<Rightarrow> Some (Inr track_points)
      | Some (reverse, way) \<Rightarrow>
          (case track_step df nodes reverse way track_points of
             Inl e \<Rightarrow> Some (Inl e)
           | Inr (current_node', track_points') \<Rightarrow>
               track_loop df nodes (Some way) current_node' track_points'))"

declare track_loop.simps [code]

text \<open>
  \<^verbatim>\<open>create_track_points\<close> from the point where the frame and the node lists are at
  hand: \<^verbatim>\<open>current_way = None\<close>, \<^verbatim>\<open>current_node = start_node\<close>,
  \<^verbatim>\<open>track_points = [start_node]\<close>.
\<close>

definition stitch :: "dataframe \<Rightarrow> int list list \<Rightarrow> int \<Rightarrow> (error + int list) option" where
  "stitch df l_nodes start_node = track_loop df l_nodes None start_node [start_node]"

text \<open>
  \<^verbatim>\<open>create_track_points\<close>: the frame and the node lists come from
  \<^verbatim>\<open>get_relation_members(relation)\<close> with its defaults \<^verbatim>\<open>skip=True\<close>,
  \<^verbatim>\<open>role='alternative'\<close>.
\<close>

definition create_track_points ::
  "(int \<Rightarrow> error + way_rec) \<Rightarrow> relation_rec \<Rightarrow> int \<Rightarrow> (error + int list) option" where
  "create_track_points way_by_id relation start_node =
     (case get_relation_members way_by_id relation True ''alternative'' of
        (df, l_nodes) \<Rightarrow> stitch df l_nodes start_node)"

subsection \<open>The loop over a store of list objects\<close>

text \<open>
  The node lists handed to the loop are the list objects held by the way dictionaries
  of the lookup cache, and \<^verbatim>\<open>nodes = l_nodes[:]\<close> copies only the outer list. To
  state what the loop writes, list objects live in a store: \<open>cells\<close> maps an address to
  the content of the list there, \<open>next_addr\<close> is the next free address. The outer list of
  references is never written and stays a value; the data frame is only read through
  selections that build new frames and stays a value too.
\<close>

record heap =
  cells :: "nat \<Rightarrow> int list"
  next_addr :: nat

text \<open>A new list object (a list display, a slice or a copy \<^verbatim>\<open>xs[:]\<close>).\<close>

definition new_list :: "int list \<Rightarrow> heap \<Rightarrow> nat \<times> heap" where
  "new_list xs h = (next_addr h, h\<lparr>cells := (cells h)(next_addr h := xs), next_addr := Suc (next_addr h)\<rparr>)"

text \<open>\<^verbatim>\<open>a.reverse()\<close> and \<^verbatim>\<open>a.extend(b)\<close>, both in place.\<close>

definition list_reverse :: "nat \<Rightarrow> heap \<Rightarrow> heap" where
  "list_reverse a h = h\<lparr>cells := (cells h)(a := rev (cells h a))\<rparr>"

definition list_extend :: "nat \<Rightarrow> nat \<Rightarrow> heap \<Rightarrow> heap" where
  "list_extend a b h = h\<lparr>cells := (cells h)(a := cells h a @ cells h b)\<rparr>"

text \<open>
  \<^verbatim>\<open>get_nodes\<close>: \<^verbatim>\<open>list_of_nodes = nodes[current_segment][:]\<close> makes a new object,
  \<^verbatim>\<open>list_of_nodes.reverse()\<close> writes to it.
\<close>

definition get_nodes_h :: "nat list \<Rightarrow> nat \<Rightarrow> bool \<Rightarrow> heap \<Rightarrow> error + (nat \<times> heap)" where
  "get_nodes_h nodes current_segment reverse h =
     (if current_segment < length nodes then
        (case new_list (cells h (nodes ! current_segment)) h of
           (list_of_nodes, h1) \<Rightarrow>
             Inr (list_of_nodes, if reverse then list_reverse list_of_nodes h1 else h1))
      else Inl IndexError)"

text \<open>
  \<^verbatim>\<open>extend_track_points\<close>: the slice is a new object, \<^verbatim>\<open>track_points.extend\<close>
  writes to the track, and the same reference is returned.
\<close>

definition extend_track_points_h :: "nat \<Rightarrow> nat \<Rightarrow> bool \<Rightarrow> heap \<Rightarrow> nat \<times> heap" where
  "extend_track_points_h track_points list_of_nodes reverse h =
     (case new_list (if reverse then butlast (cells h list_of_nodes)
                     else tl (cells h list_of_nodes)) h of
        (slice, h1) \<Rightarrow> (track_points, list_extend track_points slice h1))"

definition track_step_h ::
  "dataframe \<Rightarrow> nat list \<Rightarrow> bool \<Rightarrow> int list \<Rightarrow> nat \<Rightarrow> heap \<Rightarrow> error + (int \<times> nat \<times> heap)" where
  "track_step_h df nodes reverse current_way track_points h =
     (case get_segment df current_way of
        Inl e \<Rightarrow> Inl e
      | Inr current_segment \<Rightarrow>
          (case get_nodes_h nodes current_segment reverse h of
             Inl e \<Rightarrow> Inl e
           | Inr (list_of_nodes, h1) \<Rightarrow>
               (case get_node_list (cells h1 list_of_nodes) of
                  Inl e \<Rightarrow> Inl e
                | Inr current_node \<Rightarrow>
                    (case extend_track_points_h track_points list_of_nodes reverse h1 of
                       (track_points', h2) \<Rightarrow> Inr (current_node, track_points', h2)))))"

partial_function (option) track_loop_h ::
  "dataframe \<Rightarrow> nat list \<Rightarrow> int list option \<Rightarrow> int \<Rightarrow> nat \<Rightarrow> heap \<Rightarrow>
   ((error + nat) \<times> heap) option"
where
  "track_loop_h df nodes current_way current_node track_points h =
     (case find_way df current_way current_node of
        None \<Rightarrow> Some (Inr track_points, h)
      | Some (reverse, way) \<Rightarrow>
          (case track_step_h df nodes reverse way track_points h of
             Inl e \<Rightarrow> Some (Inl e, h)
           | Inr (current_node', track_points', h') \<Rightarrow>
               track_loop_h df nodes (Some way) current_node' track_points' h'))"

declare track_loop_h.simps [code]

text \<open>\<^verbatim>\<open>track_points = [start_node]\<close> is a new object; then the loop runs.\<close>

definition stitch_h ::
  "dataframe \<Rightarrow> nat list \<Rightarrow> int \<Rightarrow> heap \<Rightarrow> ((error + nat) \<times> heap) option" where
  "stitch_h df l_nodes start_node h =
     (case new_list [start_node] h of
        (track_points, h1) \<Rightarrow> track_loop_h df l_nodes None start_node track_points h1)"

text \<open>What a run over the store returns, read as a value: the exception or the track's content.\<close>

definition track_of :: "(error + nat) \<times> heap \<Rightarrow> error + int list" where
  "track_of y = (case fst y of Inl e \<Rightarrow> Inl e | Inr t \<Rightarrow> Inr (cells (snd y) t))"

text \<open>
  \<open>frame t h h'\<close>: from \<open>h\<close> to \<open>h'\<close> nothing was freed and no object of \<open>h\<close> other
  than \<open>t\<close> was written. \<open>refs_ok nodes t h\<close>: the track and the node lists are objects
  of \<open>h\<close> and the track is none of the node lists.
\<close>

definition frame :: "nat \<Rightarrow> heap \<Rightarrow> heap \<Rightarrow> bool" where
  "frame t h h' \<longleftrightarrow> next_addr h \<le> next_addr h' \<and> (\<forall>a<next_addr h. a \<noteq> t \<longrightarrow> cells h' a = cells h a)"

definition refs_ok :: "nat list \<Rightarrow> nat \<Rightarrow> heap \<Rightarrow> bool" where
  "refs_ok nodes t h \<longleftrightarrow> t < next_addr h \<and> (\<forall>a\<in>set nodes. a < next_addr h \<and> a \<noteq> t)"

subsection \<open>Notions used in the statements\<close>

text \<open>
  A member is kept by \<^verbatim>\<open>get_relation_nodes\<close> when its node list was fetched and is
  not empty; \<open>nodes_of\<close> is that list and \<open>row_of\<close> the row appended for the member.
\<close>

definition kept :: "(int \<Rightarrow> error + way_rec) \<Rightarrow> member_rec \<Rightarrow> bool" where
  "kept way_by_id way =
     (case get_way_nodes way_by_id way of Some ns \<Rightarrow> ns \<noteq> [] | None \<Rightarrow> False)"

definition nodes_of :: "(int \<Rightarrow> error + way_rec) \<Rightarrow> member_rec \<Rightarrow> int list" where
  "nodes_of way_by_id way = (case get_way_nodes way_by_id way of Some ns \<Rightarrow> ns | None \<Rightarrow> [])"

definition row_of :: "(int \<Rightarrow> error + way_rec) \<Rightarrow> member_rec \<Rightarrow> row" where
  "row_of way_by_id way =
     \<lparr>r_way = m_ref way, r_begin = hd (nodes_of way_by_id way),
      r_end = last (nodes_of way_by_id way)\<rparr>"




definition table_ok :: "dataframe \<Rightarrow> int list list \<Rightarrow> bool" where
  "table_ok df nodes \<longleftrightarrow>
     length nodes = length df \<and>
     list_all (\<lambda>i. nodes ! i \<noteq> [] \<and> r_begin (df ! i) = hd (nodes ! i) \<and>
                   r_end (df ! i) = last (nodes ! i)) [0..<length df] \<and>
     distinct (map r_way df) \<and> distinct (map r_begin df) \<and> distinct (map r_end df)"

subsection \<open>Example data\<close>

text \<open>
  A source with three ways, a member list in which the lookup of way 4 fails, the edge
  table of the three ways, a store holding their node lists, and small remote sources
  and a small cache for the lookups.
\<close>

definition ex_way_by_id :: "int \<Rightarrow> error + way_rec" where
  "ex_way_by_id k =
     (if k = 1 then Inr \<lparr>w_id = 1, w_nd = [101, 102, 103]\<rparr>
      else if k = 2 then Inr \<lparr>w_id = 2, w_nd = [103, 104]\<rparr>
      else if k = 3 then Inr \<lparr>w_id = 3, w_nd = [105, 104]\<rparr>
      else Inl ApiError)"

definition ex_members :: "member_rec list" where
  "ex_members =
     [\<lparr>m_type = ''way'', m_ref = 1, m_role = ''''\<rparr>,
      \<lparr>m_type = ''way'', m_ref = 2, m_role = ''alternative''\<rparr>,
      \<lparr>m_type = ''way'', m_ref = 4, m_role = ''''\<rparr>,
      \<lparr>m_type = ''way'', m_ref = 3, m_role = ''''\<rparr>]"

definition ex_heap :: heap where
  "ex_heap =
     \<lparr>cells = (\<lambda>a. if a = 0 then [101, 102, 103] else if a = 1 then [103, 104]
                   else if a = 2 then [105, 104] else []),
      next_addr = 3\<rparr>"

definition ex_frame :: dataframe where
  "ex_frame =
     [\<lparr>r_way = 1, r_begin = 101, r_end = 103\<rparr>,
      \<lparr>r_way = 2, r_begin = 103, r_end = 104\<rparr>,
      \<lparr>r_way = 3, r_begin = 105, r_end = 104\<rparr>]"

definition ex_source :: "int \<Rightarrow> error + int" where
  "ex_source k = Inr (k + 1)"

definition ex_source_down :: "int \<Rightarrow> error + int" where
  "ex_source_down k = Inl ApiError"

definition ex_names :: "string \<Rightarrow> error + int" where
  "ex_names k = Inr (int (length k))"

definition ex_cache :: "(int, int) lru_state" where
  "ex_cache = \<lparr>cache = [(7, 8), (9, 10)], hits = 0, misses = 2, fetched = [7, 9]\<rparr>"

text \<open>Two ways that form a cycle.\<close>

definition ex_cycle :: dataframe where
  "ex_cycle = [\<lparr>r_way = 1, r_begin = 101, r_end = 102\<rparr>, \<lparr>r_way = 2, r_begin = 102, r_end = 101\<rparr>]"

definition ex_cycle_nodes :: "int list list" where
  "ex_cycle_nodes = [[101, 102], [102, 101]]"







section \<open>The memoised lookups are least-recently-used caches\<close>

lemma keys_renew:
  "map_of c k = Some v \<Longrightarrow> map fst (cache_renew k c) = filter (\<lambda>x. x \<noteq> k) (map fst c) @ [k]"
  by (simp add: cache_renew_def filter_map comp_def)

lemma keys_wrapper_hit:
  "map_of (cache s) k = Some v \<Longrightarrow>
   map fst (cache (snd (lru_wrapper m f k s))) = filter (\<lambda>x. x \<noteq> k) (map fst (cache s)) @ [k]"
  by (simp add: lru_wrapper_def keys_renew)

lemma keys_wrapper_miss:
  assumes "map_of (cache s) k = None" and "f k = Inr v"
  shows "map fst (cache (snd (lru_wrapper m f k s))) =
     (if length (cache s) + 1 > m then tl (map fst (cache s) @ [k]) else map fst (cache s) @ [k])"
proof -
  from assms(1) have "k \<notin> fst ` set (cache s)" by (simp add: map_of_eq_None_iff)
  with assms show ?thesis
    by (simp add: lru_wrapper_def cache_set_def Let_def map_tl)
qed

lemma calls_snoc: "calls lookup (ks @ [k]) s = snd (lookup k (calls lookup ks s))"
  by (induction ks arbitrary: s) simp_all

lemma remdups_snoc: "remdups (ks @ [k]) = filter (\<lambda>x. x \<noteq> k) (remdups ks) @ [k]"
  by (induction ks) auto


lemma filter_neq_id: "k \<notin> set R \<Longrightarrow> filter (\<lambda>x. x \<noteq> k) R = R"
  by (induction R) auto

lemma length_filter_neq_distinct:
  "distinct R \<Longrightarrow> k \<in> set R \<Longrightarrow> Suc (length (filter (\<lambda>x. x \<noteq> k) R)) = length R"
  by (induction R) (auto simp: filter_neq_id)

lemma take_drop_disjoint: "distinct R \<Longrightarrow> set (take d R) \<inter> set (drop d R) = {}"
  by (metis append_take_drop_id distinct_append)

lemma filter_drop_member:
  assumes d: "distinct R" and k: "k \<in> set (drop d R)"
  shows "filter (\<lambda>x. x \<noteq> k) (drop d R) = drop d (filter (\<lambda>x. x \<noteq> k) R)"
proof -
  have R: "R = take d R @ drop d R" by simp
  from take_drop_disjoint[OF d, of d] k have notin: "k \<notin> set (take d R)" by auto
  have "filter (\<lambda>x. x \<noteq> k) R = take d R @ filter (\<lambda>x. x \<noteq> k) (drop d R)"
    by (subst R) (simp only: filter_append filter_neq_id[OF notin])
  moreover from k have "d \<le> length R" by (cases "d \<le> length R") auto
  ultimately show ?thesis by simp
qed

lemma filter_take_member:
  assumes d: "distinct R" and k: "k \<in> set R" and nk: "k \<notin> set (drop d R)"
  shows "drop d (filter (\<lambda>x. x \<noteq> k) R) = drop (Suc d) R"
proof (cases "d \<le> length R")
  case False
  then have "length (filter (\<lambda>x. x \<noteq> k) R) \<le> d"
    using length_filter_le[of "\<lambda>x. x \<noteq> k" R] by arith
  with False show ?thesis by simp
next
  case dl: True
  have R: "R = take d R @ drop d R" by simp
  from k nk have kt: "k \<in> set (take d R)" by (metis R Un_iff set_append)
  have "distinct (take d R)" using d by simp
  then have len: "Suc (length (filter (\<lambda>x. x \<noteq> k) (take d R))) = d"
    using kt dl length_filter_neq_distinct[of "take d R" k] by simp
  have "filter (\<lambda>x. x \<noteq> k) R = filter (\<lambda>x. x \<noteq> k) (take d R) @ drop d R"
    by (subst R) (simp only: filter_append filter_neq_id[OF nk])
  then have "drop d (filter (\<lambda>x. x \<noteq> k) R) =
      drop (d - length (filter (\<lambda>x. x \<noteq> k) (take d R))) (drop d R)"
    using len by simp
  also have "d - length (filter (\<lambda>x. x \<noteq> k) (take d R)) = 1" using len by arith
  finally show ?thesis by simp
qed

lemma keys_calls:
  assumes m: "0 < m" and ok: "\<forall>k \<in> set ks. \<exists>v. f k = Inr v"
  shows "map fst (cache (calls (lru_wrapper m f) ks lru_empty)) = most_recent m ks"
  using ok
proof (induction ks rule: rev_induct)
  case Nil
  show ?case by (simp add: lru_empty_def most_recent_def)
next
  case (snoc k ks)
  let ?s = "calls (lru_wrapper m f) ks lru_empty"
  let ?R = "remdups ks"
  let ?d = "length ?R - m"
  from snoc have IH: "map fst (cache ?s) = drop ?d ?R" by (simp add: most_recent_def)
  from snoc.prems obtain v where v: "f k = Inr v" by auto
  have dR: "distinct ?R" by simp
  have len: "length (cache ?s) = length ?R - ?d" using IH by (metis length_drop length_map)
  show ?case
  proof (cases "map_of (cache ?s) k")
    case (Some w)
    then have kin: "k \<in> set (drop ?d ?R)"
      using IH by (metis map_of_eq_None_iff option.distinct(1) set_map)
    then have kR: "k \<in> set ?R" by (meson in_set_dropD)
    have "map fst (cache (calls (lru_wrapper m f) (ks @ [k]) lru_empty)) =
        filter (\<lambda>x. x \<noteq> k) (drop ?d ?R) @ [k]"
      by (simp add: calls_snoc keys_wrapper_hit[of ?s k w m f, OF Some] IH)
    also have "\<dots> = drop ?d (filter (\<lambda>x. x \<noteq> k) ?R) @ [k]"
      by (simp add: filter_drop_member[OF dR kin])
    also have "\<dots> = most_recent m (ks @ [k])"
      using length_filter_neq_distinct[OF dR kR] m
      by (simp add: most_recent_def remdups_snoc)
    finally show ?thesis .
  next
    case None
    then have knot: "k \<notin> set (drop ?d ?R)"
      using IH by (metis map_of_eq_None_iff set_map)
    have step: "map fst (cache (calls (lru_wrapper m f) (ks @ [k]) lru_empty)) =
        (if length ?R - ?d + 1 > m then tl (drop ?d ?R @ [k]) else drop ?d ?R @ [k])"
      by (simp add: calls_snoc keys_wrapper_miss[of ?s k f v m, OF None v] IH len)
    show ?thesis
    proof (cases "k \<in> set ?R")
      case False
      then have fR: "filter (\<lambda>x. x \<noteq> k) ?R = ?R" by (rule filter_neq_id)
      show ?thesis
      proof (cases "length ?R < m")
        case True
        then show ?thesis using step by (simp add: most_recent_def remdups_snoc fR)
      next
        case False
        then have "drop ?d ?R \<noteq> []" using m by simp
        then have "tl (drop ?d ?R @ [k]) = drop (Suc ?d) ?R @ [k]"
          by (simp add: drop_Suc tl_drop)
        moreover have "Suc (length ?R) - m = Suc ?d" using False by arith
        ultimately show ?thesis using step False m
          by (simp add: most_recent_def remdups_snoc fR)
      qed
    next
      case True
      with knot have "?d \<noteq> 0" by (cases "?d = 0") auto
      then have big: "m < length ?R" by arith
      then have ne: "drop ?d ?R \<noteq> []" using m by simp
      have "map fst (cache (calls (lru_wrapper m f) (ks @ [k]) lru_empty)) = drop (Suc ?d) ?R @ [k]"
        using step big m ne by (simp add: drop_Suc tl_drop)
      also have "\<dots> = drop ?d (filter (\<lambda>x. x \<noteq> k) ?R) @ [k]"
        by (simp add: filter_take_member[OF dR True knot])
      also have "\<dots> = most_recent m (ks @ [k])"
        using length_filter_neq_distinct[OF dR True] big m
        by (simp add: most_recent_def remdups_snoc)
      finally show ?thesis .
    qed
  qed
qed


lemma lru_miss:
  assumes m: "0 < m" and miss: "map_of (cache s) k = None" and v: "f k = Inr v"
  shows "fst (lru_wrapper m f k s) = Inr v"
    and "fetched (snd (lru_wrapper m f k s)) = fetched s @ [k]"
    and "map_of (cache (snd (lru_wrapper m f k s))) k = Some v"
    and "cache (snd (lru_wrapper m f k s)) =
      (if m < length (cache s) + 1 then tl (cache s @ [(k, v)]) else cache s @ [(k, v)])"
proof -
  from miss have notin: "k \<notin> fst ` set (cache s)" by (simp add: map_of_eq_None_iff)
  show "fst (lru_wrapper m f k s) = Inr v"
    using miss v by (simp add: lru_wrapper_def Let_def)
  show "fetched (snd (lru_wrapper m f k s)) = fetched s @ [k]"
    using miss v by (simp add: lru_wrapper_def Let_def)
  show c: "cache (snd (lru_wrapper m f k s)) =
      (if m < length (cache s) + 1 then tl (cache s @ [(k, v)]) else cache s @ [(k, v)])"
    using miss v notin by (simp add: lru_wrapper_def cache_set_def Let_def)
  show "map_of (cache (snd (lru_wrapper m f k s))) k = Some v"
  proof (cases "length (cache s) + 1 > m")
    case False
    with c miss show ?thesis by (simp add: map_add_def)
  next
    case True
    with m have ne: "cache s \<noteq> []" by auto
    have "k \<notin> fst ` set (tl (cache s))"
      using notin list.set_sel(2)[OF ne] by auto
    then have "map_of (tl (cache s)) k = None" by (simp add: map_of_eq_None_iff)
    with c True ne show ?thesis by (simp add: map_add_def)
  qed
qed

lemma set_cache_renew:
  assumes "distinct (map fst c)" and "map_of c k = Some v"
  shows "set (cache_renew k c) = set c"
proof -
  from assms(2) have kv: "(k, v) \<in> set c" by (rule map_of_SomeD)
  have eq: "b = v" if "(k, b) \<in> set c" for b
    using assms(1) that kv by (rule eq_key_imp_eq_value)
  have "set (cache_renew k c) = {x \<in> set c. fst x \<noteq> k} \<union> {(k, v)}"
    using assms(2) by (simp add: cache_renew_def)
  also have "\<dots> = set c"
  proof (intro equalityI subsetI)
    fix x assume "x \<in> {x \<in> set c. fst x \<noteq> k} \<union> {(k, v)}"
    with kv show "x \<in> set c" by blast
  next
    fix x assume x: "x \<in> set c"
    show "x \<in> {x \<in> set c. fst x \<noteq> k} \<union> {(k, v)}"
    proof (cases "fst x = k")
      case True
      obtain a b where ab: "x = (a, b)" by (cases x)
      from True ab have "a = k" by simp
      with x ab eq[of b] have "x = (k, v)" by simp
      then show ?thesis by simp
    next
      case False
      with x show ?thesis by simp
    qed
  qed
  finally show ?thesis .
qed

lemma lru_hit:
  assumes hit: "map_of (cache s) k = Some v"
  shows "fst (lru_wrapper m f k s) = Inr v"
    and "fetched (snd (lru_wrapper m f k s)) = fetched s"
    and "map fst (cache (snd (lru_wrapper m f k s))) = filter (\<lambda>x. x \<noteq> k) (map fst (cache s)) @ [k]"
    and "cache (snd (lru_wrapper m f k s)) = filter (\<lambda>kv. fst kv \<noteq> k) (cache s) @ [(k, v)]"
    and "distinct (map fst (cache s)) \<Longrightarrow> set (cache (snd (lru_wrapper m f k s))) = set (cache s)"
proof -
  show "fst (lru_wrapper m f k s) = Inr v" using hit by (simp add: lru_wrapper_def)
  show "fetched (snd (lru_wrapper m f k s)) = fetched s" using hit by (simp add: lru_wrapper_def)
  show "map fst (cache (snd (lru_wrapper m f k s))) = filter (\<lambda>x. x \<noteq> k) (map fst (cache s)) @ [k]"
    using hit by (simp add: lru_wrapper_def keys_renew)
  show "cache (snd (lru_wrapper m f k s)) = filter (\<lambda>kv. fst kv \<noteq> k) (cache s) @ [(k, v)]"
    using hit by (simp add: lru_wrapper_def cache_renew_def)
  show "distinct (map fst (cache s)) \<Longrightarrow> set (cache (snd (lru_wrapper m f k s))) = set (cache s)"
    using hit by (simp add: lru_wrapper_def set_cache_renew)
qed

lemma lru_fail:
  assumes "map_of (cache s) k = None" and "f k = Inl e"
  shows "fst (lru_wrapper m f k s) = Inl e"
    and "cache (snd (lru_wrapper m f k s)) = cache s"
    and "fetched (snd (lru_wrapper m f k s)) = fetched s @ [k]"
  using assms by (simp_all add: lru_wrapper_def)

lemma most_recent_full:
  assumes "0 < m" and "distinct ks" and "length ks = m" and "k \<notin> set ks"
  shows "most_recent m (ks @ [k]) = tl ks @ [k]"
proof -
  from assms have r: "remdups (ks @ [k]) = ks @ [k]" by (simp add: distinct_remdups_id)
  from assms have ne: "ks \<noteq> []" by auto
  have "most_recent m (ks @ [k]) = drop (length (ks @ [k]) - m) (ks @ [k])"
    unfolding most_recent_def r ..
  also have "\<dots> = drop 1 (ks @ [k])" using assms(3) by simp
  also have "\<dots> = tl ks @ [k]" using ne by (cases ks) simp_all
  finally show ?thesis .
qed

lemma cache_ok_renew:
  assumes "distinct (map fst c)" and "list_all P c" and "map_of c k = Some v"
  shows "distinct (map fst (cache_renew k c)) \<and> list_all P (cache_renew k c)"
proof -
  from assms(3) have kv: "(k, v) \<in> set c" by (rule map_of_SomeD)
  with assms(2) have "P (k, v)" by (simp add: list_all_iff)
  moreover have "distinct (map fst (filter (\<lambda>kv. fst kv \<noteq> k) c))"
    using assms(1) by (simp add: distinct_map_filter)
  ultimately show ?thesis using assms(2,3)
    by (auto simp: cache_renew_def list_all_iff)
qed

lemma lru_wrapper_transparent:
  assumes ok: "cache_ok f s"
  shows "fst (lru_wrapper m f k s) = f k \<and> cache_ok f (snd (lru_wrapper m f k s))"
proof (cases "map_of (cache s) k")
  case (Some v)
  then have "(k, v) \<in> set (cache s)" by (rule map_of_SomeD)
  with ok have fk: "f k = Inr v" by (auto simp: cache_ok_def list_all_iff)
  from ok have "distinct (map fst (cache s))" and "list_all (\<lambda>kv. f (fst kv) = Inr (snd kv)) (cache s)"
    by (simp_all add: cache_ok_def)
  from cache_ok_renew[OF this Some] Some fk show ?thesis
    by (simp add: lru_wrapper_def cache_ok_def)
next
  case None
  then have notin: "k \<notin> fst ` set (cache s)" by (simp add: map_of_eq_None_iff)
  show ?thesis
  proof (cases "f k")
    case (Inl e)
    with None ok show ?thesis by (simp add: lru_wrapper_def cache_ok_def)
  next
    case (Inr v)
    let ?c = "cache s @ [(k, v)]"
    have d: "distinct (map fst ?c)" and a: "list_all (\<lambda>kv. f (fst kv) = Inr (snd kv)) ?c"
      using ok notin Inr by (auto simp: cache_ok_def)
    have "distinct (map fst (tl ?c))" using d by (metis distinct_tl map_tl)
    moreover have "list_all (\<lambda>kv. f (fst kv) = Inr (snd kv)) (tl ?c)"
      using a by (cases ?c) simp_all
    ultimately show ?thesis using None Inr notin d a
      by (simp add: lru_wrapper_def cache_set_def cache_ok_def Let_def)
  qed
qed

lemma cache_ok_calls: "cache_ok f (calls (lru_wrapper m f) ks lru_empty)"
proof (induction ks rule: rev_induct)
  case Nil
  show ?case by (simp add: cache_ok_def lru_empty_def)
next
  case (snoc k ks)
  from lru_wrapper_transparent[OF snoc, of m k] show ?case by (simp add: calls_snoc)
qed

lemma calls_answer: "fst (lru_wrapper m f k (calls (lru_wrapper m f) ks lru_empty)) = f k"
  using lru_wrapper_transparent[OF cache_ok_calls[where f = f and m = m and ks = ks],
      where m = m and k = k]
  by simp

lemma stored_key_not_fetched:
  assumes m: "0 < m" and ok: "\<forall>k\<in>set ks. \<exists>v. f k = Inr v" and k: "k \<in> set (most_recent m ks)"
  shows "fetched (snd (lru_wrapper m f k (calls (lru_wrapper m f) ks lru_empty))) =
     fetched (calls (lru_wrapper m f) ks lru_empty)"
proof -
  let ?s = "calls (lru_wrapper m f) ks lru_empty"
  from keys_calls[OF m ok] k have "k \<in> set (map fst (cache ?s))" by simp
  then have "k \<in> fst ` set (cache ?s)" by simp
  then obtain v where "map_of (cache ?s) k = Some v"
    by (cases "map_of (cache ?s) k") (simp_all add: map_of_eq_None_iff)
  then show ?thesis by (rule lru_hit(2))
qed

lemma lru_wrapper_memoised:
  fixes f :: "'k \<Rightarrow> error + 'v"
  assumes m: "0 < m"
  shows "lru_memoised m f (lru_wrapper m f)"
  unfolding lru_memoised_def
proof (intro conjI allI impI)
  fix s :: "('k, 'v) lru_state" and key v
  assume a: "map_of (cache s) key = None \<and> f key = Inr v"
  then have miss: "map_of (cache s) key = None" and v: "f key = Inr v" by simp_all
  show "fst (lru_wrapper m f key s) = Inr v" using m miss v by (rule lru_miss(1))
  show "fetched (snd (lru_wrapper m f key s)) = fetched s @ [key]"
    using m miss v by (rule lru_miss(2))
  show "map_of (cache (snd (lru_wrapper m f key s))) key = Some v"
    using m miss v by (rule lru_miss(3))
  show "cache (snd (lru_wrapper m f key s)) =
      (if m < length (cache s) + 1 then tl (cache s @ [(key, v)]) else cache s @ [(key, v)])"
    using m miss v by (rule lru_miss(4))
next
  fix s :: "('k, 'v) lru_state" and key v
  assume hit: "map_of (cache s) key = Some v"
  show "fst (lru_wrapper m f key s) = Inr v" using hit by (rule lru_hit(1))
  show "fetched (snd (lru_wrapper m f key s)) = fetched s" using hit by (rule lru_hit(2))
  show "map fst (cache (snd (lru_wrapper m f key s))) =
      filter (\<lambda>k. k \<noteq> key) (map fst (cache s)) @ [key]" using hit by (rule lru_hit(3))
  show "cache (snd (lru_wrapper m f key s)) = filter (\<lambda>kv. fst kv \<noteq> key) (cache s) @ [(key, v)]"
    using hit by (rule lru_hit(4))
  show "set (cache (snd (lru_wrapper m f key s))) = set (cache s)"
    if "distinct (map fst (cache s))" using hit that by (rule lru_hit(5))
next
  fix ks
  assume ok: "\<forall>k\<in>set ks. \<exists>v. f k = Inr v"
  show "map fst (cache (calls (lru_wrapper m f) ks lru_empty)) = most_recent m ks"
    using m ok by (rule keys_calls)
  have "cache_ok f (calls (lru_wrapper m f) ks lru_empty)" by (rule cache_ok_calls)
  then show "list_all (\<lambda>kv. f (fst kv) = Inr (snd kv)) (cache (calls (lru_wrapper m f) ks lru_empty))"
    by (simp add: cache_ok_def)
next
  fix ks k
  assume a: "distinct ks \<and> length ks = m \<and> k \<notin> set ks \<and> (\<forall>k'\<in>set (ks @ [k]). \<exists>v. f k' = Inr v)"
  then have ok: "\<forall>k'\<in>set (ks @ [k]). \<exists>v. f k' = Inr v" by blast
  have "map fst (cache (calls (lru_wrapper m f) (ks @ [k]) lru_empty)) = most_recent m (ks @ [k])"
    using m ok by (rule keys_calls)
  with a m show "map fst (cache (calls (lru_wrapper m f) (ks @ [k]) lru_empty)) = tl ks @ [k]"
    by (simp add: most_recent_full)
next
  fix s :: "('k, 'v) lru_state" and key e
  assume a: "map_of (cache s) key = None \<and> f key = Inl e"
  then have miss: "map_of (cache s) key = None" and e: "f key = Inl e" by simp_all
  show "fst (lru_wrapper m f key s) = Inl e" using miss e by (rule lru_fail(1))
  show "cache (snd (lru_wrapper m f key s)) = cache s" using miss e by (rule lru_fail(2))
  show "fetched (snd (lru_wrapper m f key s)) = fetched s @ [key]"
    using miss e by (rule lru_fail(3))
next
  fix ks key
  show "fst (lru_wrapper m f key (calls (lru_wrapper m f) ks lru_empty)) = f key"
    by (rule calls_answer)
next
  fix ks key
  assume a: "(\<forall>k\<in>set ks. \<exists>v. f k = Inr v) \<and> key \<in> set (most_recent m ks)"
  then have ok: "\<forall>k\<in>set ks. \<exists>v. f k = Inr v" and k: "key \<in> set (most_recent m ks)"
    by simp_all
  show "fetched (snd (lru_wrapper m f key (calls (lru_wrapper m f) ks lru_empty))) =
      fetched (calls (lru_wrapper m f) ks lru_empty)"
    using m ok k by (rule stored_key_not_fetched)
qed

text \<open>
  Claim C7. Each of \<^verbatim>\<open>get_relation_by_id\<close>, \<^verbatim>\<open>get_relation_by_name\<close>,
  \<^verbatim>\<open>get_way_by_id\<close> and \<^verbatim>\<open>get_node_by_id\<close> is memoised in a cache of its own with a
  fixed capacity (128, 128, 2048, 4096) and the least-recently-used discipline: the
  first call for a key asks the remote source and stores the answer; a later call for
  the key returns the stored value without asking and counts as a use; once as many
  distinct keys as the capacity are stored, one more distinct key evicts exactly the
  least recently used entry.
\<close>

theorem lookups_lru_memoised:
  "lru_memoised 128 RelationGet (get_relation_by_id RelationGet) \<and>
   lru_memoised 128 Get (get_relation_by_name Get) \<and>
   lru_memoised 2048 WayGet (get_way_by_id WayGet) \<and>
   lru_memoised 4096 NodeGet (get_node_by_id NodeGet)"
  by (simp add: get_relation_by_id_def get_relation_by_name_def get_way_by_id_def
      get_node_by_id_def lru_wrapper_memoised)

text \<open>The statement at concrete sources and caches.\<close>

theorem lookups_lru_memoised_witness:
  "fst (get_way_by_id ex_source 7 lru_empty) = Inr 8 \<and>
   fetched (snd (get_way_by_id ex_source 7 lru_empty)) = [7] \<and>
   cache (snd (get_way_by_id ex_source 7 lru_empty)) = [(7, 8)] \<and>
   fst (get_node_by_id ex_source_down 7 ex_cache) = Inr 8 \<and>
   fetched (snd (get_node_by_id ex_source_down 7 ex_cache)) = [7, 9] \<and>
   cache (snd (get_node_by_id ex_source_down 7 ex_cache)) = [(9, 10), (7, 8)] \<and>
   fst (get_node_by_id ex_source_down 5 ex_cache) = Inl ApiError \<and>
   cache (snd (get_node_by_id ex_source_down 5 ex_cache)) = [(7, 8), (9, 10)] \<and>
   map fst (cache (calls (get_relation_by_name ex_names) [''a'', ''b'', ''a''] lru_empty)) =
     [''b'', ''a''] \<and>
   fst (get_way_by_id ex_source 7 (calls (get_way_by_id ex_source) [7, 9] lru_empty)) = Inr 8 \<and>
   fetched (snd (get_way_by_id ex_source 7 (calls (get_way_by_id ex_source) [7, 9] lru_empty))) =
     fetched (calls (get_way_by_id ex_source) [7, 9] lru_empty) \<and>
   map fst (cache (calls (get_relation_by_id ex_source) (map int [0..<128] @ [128]) lru_empty)) =
     tl (map int [0..<128]) @ [128]"
proof -
  note T = lookups_lru_memoised[of ex_source ex_names ex_source ex_source_down]
  from T have R: "lru_memoised 128 ex_source (get_relation_by_id ex_source)" by (rule conjunct1)
  from T have N: "lru_memoised 128 ex_names (get_relation_by_name ex_names)"
    by (rule conjunct1[OF conjunct2])
  from T have W: "lru_memoised 2048 ex_source (get_way_by_id ex_source)"
    by (rule conjunct1[OF conjunct2[OF conjunct2]])
  from T have D: "lru_memoised 4096 ex_source_down (get_node_by_id ex_source_down)"
    by (rule conjunct2[OF conjunct2[OF conjunct2]])
  have h1: "map_of (cache (lru_empty :: (int, int) lru_state)) 7 = None \<and> ex_source 7 = Inr 8"
    by (simp add: lru_empty_def ex_source_def)
  note miss = W[unfolded lru_memoised_def, THEN conjunct1, THEN spec, THEN spec, THEN spec,
      THEN mp, OF h1]
  have h2: "map_of (cache ex_cache) 7 = Some 8" by (simp add: ex_cache_def)
  note hit = D[unfolded lru_memoised_def, THEN conjunct2, THEN conjunct1, THEN spec, THEN spec,
      THEN spec, THEN mp, OF h2]
  have h3: "\<forall>k\<in>set [''a'', ''b'', ''a'']. \<exists>v. ex_names k = Inr v" by (simp add: ex_names_def)
  note trace = N[unfolded lru_memoised_def, THEN conjunct2, THEN conjunct2, THEN conjunct1,
      THEN spec, THEN mp, OF h3]
  have h4: "distinct (map int [0..<128]) \<and> length (map int [0..<128]) = 128 \<and>
      128 \<notin> set (map int [0..<128]) \<and>
      (\<forall>k'\<in>set (map int [0..<128] @ [128]). \<exists>v. ex_source k' = Inr v)"
    by (auto simp: distinct_map ex_source_def)
  note evict = R[unfolded lru_memoised_def, THEN conjunct2, THEN conjunct2, THEN conjunct2,
      THEN conjunct1, THEN spec, THEN spec, THEN mp, OF h4]
  have h5: "map_of (cache ex_cache) 5 = None \<and> ex_source_down 5 = Inl ApiError"
    by (simp add: ex_cache_def ex_source_down_def)
  note fail = D[unfolded lru_memoised_def, THEN conjunct2, THEN conjunct2, THEN conjunct2,
      THEN conjunct2, THEN conjunct1, THEN spec, THEN spec, THEN spec, THEN mp, OF h5]
  note answer = W[unfolded lru_memoised_def, THEN conjunct2, THEN conjunct2, THEN conjunct2,
      THEN conjunct2, THEN conjunct2, THEN conjunct1,
      THEN spec[where x = "[7, 9]"], THEN spec[where x = 7]]
  have mr2: "most_recent 2048 [7, 9 :: int] = [7, 9]" by (simp add: most_recent_def)
  have h7: "(\<forall>k\<in>set [7, 9]. \<exists>v. ex_source k = Inr v) \<and> 7 \<in> set (most_recent 2048 [7, 9 :: int])"
    unfolding mr2 by (simp add: ex_source_def)
  note quiet = W[unfolded lru_memoised_def, THEN conjunct2, THEN conjunct2, THEN conjunct2,
      THEN conjunct2, THEN conjunct2, THEN conjunct2, THEN spec, THEN spec, THEN mp, OF h7]
  have mr: "most_recent 128 [''a'', ''b'', ''a''] = [''b'', ''a'']"
    by (simp add: most_recent_def)
  have c1: "fst (get_way_by_id ex_source 7 lru_empty) = Inr 8"
    using miss by (rule conjunct1)
  have c2: "fetched (snd (get_way_by_id ex_source 7 lru_empty)) = [7]"
    using miss by (simp add: lru_empty_def)
  have c3: "cache (snd (get_way_by_id ex_source 7 lru_empty)) = [(7, 8)]"
    using miss by (simp add: lru_empty_def)
  have c4: "fst (get_node_by_id ex_source_down 7 ex_cache) = Inr 8"
    using hit by (rule conjunct1)
  have c5: "fetched (snd (get_node_by_id ex_source_down 7 ex_cache)) = [7, 9]"
    using hit by (simp add: ex_cache_def)
  have c6: "cache (snd (get_node_by_id ex_source_down 7 ex_cache)) = [(9, 10), (7, 8)]"
    using hit by (simp add: ex_cache_def)
  have c7: "fst (get_node_by_id ex_source_down 5 ex_cache) = Inl ApiError"
    using fail by (rule conjunct1)
  have c8: "cache (snd (get_node_by_id ex_source_down 5 ex_cache)) = [(7, 8), (9, 10)]"
    using fail by (simp add: ex_cache_def)
  have c9: "map fst (cache (calls (get_relation_by_name ex_names) [''a'', ''b'', ''a''] lru_empty)) =
      [''b'', ''a'']"
    using trace unfolding mr by (rule conjunct1)
  have c10: "fst (get_way_by_id ex_source 7 (calls (get_way_by_id ex_source) [7, 9] lru_empty)) =
      Inr 8"
    using answer by (simp add: ex_source_def)
  from c1 c2 c3 c4 c5 c6 c7 c8 c9 c10 quiet evict show ?thesis by (intro conjI)
qed

section \<open>The edge table\<close>

lemma relation_nodes_loop_eq:
  "relation_nodes_loop gw ways (l_way, l_begin, l_end, l_nodes) =
     (l_way @ map m_ref (filter (kept gw) ways),
      l_begin @ map (\<lambda>m. hd (nodes_of gw m)) (filter (kept gw) ways),
      l_end @ map (\<lambda>m. last (nodes_of gw m)) (filter (kept gw) ways),
      l_nodes @ map (nodes_of gw) (filter (kept gw) ways))"
  by (induction ways arbitrary: l_way l_begin l_end l_nodes)
     (auto simp: kept_def nodes_of_def split: option.splits)

lemma data_frame_maps:
  "data_frame (map f xs) (map g xs) (map h xs) =
     map (\<lambda>x. \<lparr>r_way = f x, r_begin = g x, r_end = h x\<rparr>) xs"
  by (induction xs) (simp_all add: data_frame_def)

lemma get_relation_eq:
  "get_relation gw ways =
     (map (row_of gw) (filter (kept gw) ways), map (nodes_of gw) (filter (kept gw) ways))"
  by (simp add: get_relation_def get_relation_nodes_def relation_nodes_loop_eq
      data_frame_maps row_of_def)

lemma kept_fetched:
  "kept gw way \<Longrightarrow> nodes_of gw way \<noteq> [] \<and>
     (\<exists>w. gw (m_ref way) = Inr w \<and> w_nd w = nodes_of gw way)"
  by (auto simp: kept_def nodes_of_def get_way_nodes_def split: option.splits sum.splits)


lemma empty_way_dropped:
  "get_way_nodes gw way = Some [] \<Longrightarrow> get_relation gw [way] = ([], [])"
  by (simp add: get_relation_eq kept_def)

text \<open>
  Claim C8. In every edge table built by \<^verbatim>\<open>get_relation_members\<close> the rows follow
  the order of the members left by the role filter; the list of node lists has one
  entry per row, at the same position; in every row \<^verbatim>\<open>begin\<close> is the first and
  \<^verbatim>\<open>end\<close> the last element of that entry, which is the node list of the row's way
  as the lookup returned it.
\<close>

theorem edge_table_aligned:
  assumes "get_relation_members gw relation skip role = (df, l_nodes)"
  shows "length l_nodes = length df \<and>
    map r_way df =
      map m_ref (filter (kept gw)
        (if skip then filter (\<lambda>way. m_role way \<noteq> role) (members relation) else members relation)) \<and>
    (\<forall>i<length df.
       l_nodes ! i \<noteq> [] \<and>
       r_begin (df ! i) = hd (l_nodes ! i) \<and>
       r_end (df ! i) = last (l_nodes ! i) \<and>
       (\<exists>w. gw (r_way (df ! i)) = Inr w \<and> w_nd w = l_nodes ! i))"
proof -
  let ?ms = "if skip then skip_ways (members relation) role else members relation"
  let ?ks = "filter (kept gw) ?ms"
  from assms have df: "df = map (row_of gw) ?ks" and ln: "l_nodes = map (nodes_of gw) ?ks"
    by (auto simp: get_relation_members_def get_relation_eq Let_def split: if_splits)
  have len: "length l_nodes = length df" by (simp add: df ln)
  have ways: "map r_way df = map m_ref ?ks" by (simp add: df row_of_def)
  have rows: "l_nodes ! i \<noteq> [] \<and> r_begin (df ! i) = hd (l_nodes ! i) \<and>
       r_end (df ! i) = last (l_nodes ! i) \<and>
       (\<exists>w. gw (r_way (df ! i)) = Inr w \<and> w_nd w = l_nodes ! i)" if "i < length df" for i
  proof -
    from that have i: "i < length ?ks" by (simp add: df)
    then have "?ks ! i \<in> set ?ks" by (rule nth_mem)
    then have "kept gw (?ks ! i)" by simp
    from kept_fetched[OF this] i show ?thesis by (simp add: df ln row_of_def)
  qed
  from len ways rows show ?thesis by (simp add: skip_ways_def)
qed

text \<open>The statement at the example relation, whose second member has the filtered role.\<close>

theorem edge_table_aligned_witness:
  "get_relation_members ex_way_by_id \<lparr>rel_id = 9, members = ex_members\<rparr> True ''alternative'' =
     ([\<lparr>r_way = 1, r_begin = 101, r_end = 103\<rparr>, \<lparr>r_way = 3, r_begin = 105, r_end = 104\<rparr>],
      [[101, 102, 103], [105, 104]]) \<and>
   map r_way [\<lparr>r_way = 1, r_begin = 101, r_end = 103\<rparr>, \<lparr>r_way = 3, r_begin = 105, r_end = 104\<rparr>] =
     map m_ref (filter (kept ex_way_by_id)
       (filter (\<lambda>way. m_role way \<noteq> ''alternative'') ex_members)) \<and>
   ex_way_by_id 3 = Inr \<lparr>w_id = 3, w_nd = [105, 104]\<rparr>"
proof -
  have h: "get_relation_members ex_way_by_id \<lparr>rel_id = 9, members = ex_members\<rparr> True ''alternative'' =
     ([\<lparr>r_way = 1, r_begin = 101, r_end = 103\<rparr>, \<lparr>r_way = 3, r_begin = 105, r_end = 104\<rparr>],
      [[101, 102, 103], [105, 104]])"
    by code_simp
  from edge_table_aligned[OF h] h show ?thesis
    by (simp add: ex_way_by_id_def)
qed

section \<open>The walk\<close>

subsection \<open>Ways stored in walking direction\<close>

text \<open>
  On a chain whose ways are all stored in walking direction the loop returns the start
  point followed by every way's nodes without the first, in walking order: every point
  of the chain once.
\<close>

lemma filter_eq_index: "i < n \<Longrightarrow> filter (\<lambda>j. j = i) [0..<n] = [i]"
  by (induction n) (auto simp: less_Suc_eq)

lemma filter_key_index:
  assumes "distinct (map f xs)" and "i < length xs"
  shows "filter (\<lambda>j. f (xs ! j) = f (xs ! i)) [0..<length xs] = [i]"
proof -
  have "filter (\<lambda>j. f (xs ! j) = f (xs ! i)) [0..<length xs] = filter (\<lambda>j. j = i) [0..<length xs]"
  proof (rule filter_cong[OF refl])
    fix j assume "j \<in> set [0..<length xs]"
    then have j: "j < length xs" by simp
    from assms j have "(map f xs ! j = map f xs ! i) = (j = i)"
      by (simp add: nth_eq_iff_index_eq del: nth_map)
    with j assms(2) show "(f (xs ! j) = f (xs ! i)) = (j = i)" by simp
  qed
  with assms(2) show ?thesis by (simp add: filter_eq_index)
qed






lemma get_segment_row:
  assumes "distinct (map r_way df)" and "i < length df"
  shows "get_segment df [r_way (df ! i)] = Inr i"
  using filter_key_index[OF assms] by (simp add: get_segment_def series_int_def)



lemma table_ok_row:
  assumes "table_ok df nodes" and "i < length df"
  shows "i < length nodes" and "nodes ! i \<noteq> []" and "r_begin (df ! i) = hd (nodes ! i)"
    and "r_end (df ! i) = last (nodes ! i)"
  using assms by (simp_all add: table_ok_def list_all_iff)




subsection \<open>A way stored against the walking direction\<close>

text \<open>
  A step with \<^verbatim>\<open>reverse = True\<close> on row \<open>i\<close> moves to the begin of the way and
  appends the reversed node list without its last element: the appended points start
  with the end of the way, which is the point the walk stands on, and stop short of the
  new current point.
\<close>

lemma reversed_step:
  assumes ok: "table_ok df nodes" and i: "i < length df"
  shows "track_step df nodes True [r_way (df ! i)] track =
     Inr (r_begin (df ! i), track @ butlast (rev (nodes ! i)))"
proof -
  from ok have "distinct (map r_way df)" by (simp add: table_ok_def)
  then have "get_segment df [r_way (df ! i)] = Inr i" using i by (rule get_segment_row)
  with table_ok_row[OF ok i] show ?thesis
    by (simp add: track_step_def get_nodes_def get_node_list_def extend_track_points_def
        last_rev)
qed

subsection \<open>Where the walk stops, and where it does not\<close>

text \<open>
  The walk stops where neither search finds a row. It also stops at once on a point
  whose identifier is a row label of the table, because \<^verbatim>\<open>current_node not in df.begin\<close>
  looks at the labels. A relation with a cycle is walked for ever.
\<close>

lemma no_match_returns_track:
  "find_way df current_way current_node = None \<Longrightarrow>
   track_loop df nodes current_way current_node track_points = Some (Inr track_points)"
  by (subst track_loop.simps) simp

lemma index_label_stops_walk:
  "in_index df current_node \<Longrightarrow> find_way df current_way current_node = None"
  by (simp add: find_way_def check_node_def)

lemma ex_cycle_steps:
  "find_way ex_cycle None 101 = Some (False, [1])"
  "find_way ex_cycle (Some [1]) 102 = Some (False, [2])"
  "find_way ex_cycle (Some [2]) 101 = Some (False, [1])"
  "track_step ex_cycle ex_cycle_nodes False [1] t = Inr (102, t @ [102])"
  "track_step ex_cycle ex_cycle_nodes False [2] t = Inr (101, t @ [101])"
  by (simp_all add: ex_cycle_def ex_cycle_nodes_def find_way_def check_node_def in_index_def
      series_int_def track_step_def get_segment_def get_nodes_def get_node_list_def
      extend_track_points_def)

lemma ex_cycle_orbit:
  "track_loop df nodes cw cn t = Some y \<Longrightarrow>
   \<not> (df = ex_cycle \<and> nodes = ex_cycle_nodes \<and>
      ((cw = None \<and> cn = 101) \<or> (cw = Some [1] \<and> cn = 102) \<or> (cw = Some [2] \<and> cn = 101)))"
proof (induction df nodes cw cn t y rule: track_loop.raw_induct[rotated 1, consumes 1])
  case (1 loop df nodes cw cn t y)
  note IH = 1(1) and body = 1(2)
  show ?case
  proof
    assume a: "df = ex_cycle \<and> nodes = ex_cycle_nodes \<and>
      ((cw = None \<and> cn = 101) \<or> (cw = Some [1] \<and> cn = 102) \<or> (cw = Some [2] \<and> cn = 101))"
    then consider (start) "cw = None" "cn = 101" | (there) "cw = Some [1]" "cn = 102"
      | (again) "cw = Some [2]" "cn = 101"
      by blast
    then show False
    proof cases
      case start
      with a body have "loop ex_cycle ex_cycle_nodes (Some [1]) 102 (t @ [102]) = Some y"
        by (simp add: ex_cycle_steps)
      from IH[OF this] show False by simp
    next
      case there
      with a body have "loop ex_cycle ex_cycle_nodes (Some [2]) 101 (t @ [101]) = Some y"
        by (simp add: ex_cycle_steps)
      from IH[OF this] show False by simp
    next
      case again
      with a body have "loop ex_cycle ex_cycle_nodes (Some [1]) 102 (t @ [102]) = Some y"
        by (simp add: ex_cycle_steps)
      from IH[OF this] show False by simp
    qed
  qed
qed

lemma cycle_never_returns: "stitch ex_cycle ex_cycle_nodes 101 = None"
proof (cases "stitch ex_cycle ex_cycle_nodes 101")
  case None
  then show ?thesis .
next
  case (Some y)
  then have "track_loop ex_cycle ex_cycle_nodes None 101 [101] = Some y"
    by (simp add: stitch_def)
  from ex_cycle_orbit[OF this] show ?thesis by simp
qed

subsection \<open>The exceptions that leave the loop\<close>






subsection \<open>The scenarios\<close>

text \<open>
  Claim C9. On an empty edge table the reconstruction returns the track that holds the
  start point only, whatever the start point is; so does \<^verbatim>\<open>create_track_points\<close> on
  a relation without members.
\<close>

theorem empty_table_track:
  "stitch [] l_nodes start_node = Some (Inr [start_node]) \<and>
   create_track_points way_by_id \<lparr>rel_id = i, members = []\<rparr> start_node = Some (Inr [start_node])"
proof -
  have "stitch [] ns start_node = Some (Inr [start_node])" for ns
    by (simp add: stitch_def track_loop.simps find_way_def check_node_def in_index_def)
  then show ?thesis
    by (simp add: create_track_points_def get_relation_members_def skip_ways_def
        get_relation_def get_relation_nodes_def data_frame_def)
qed

text \<open>
  Claim C3. For the ways W1 \<open>[A, B, C]\<close>, W2 \<open>[C, D]\<close> and W3 \<open>[E, D]\<close> and the
  start point \<open>A\<close> the specification expects the track \<open>[A, B, C, D, E]\<close>. With
  \<open>A, \<dots>, E\<close> = \<open>101, \<dots>, 105\<close> the code returns \<open>[A, B, C, D, D]\<close>: W3 is taken
  reversed, \<^verbatim>\<open>get_nodes\<close> turns it into \<open>[D, E]\<close>, and \<^verbatim>\<open>extend_track_points\<close>
  then appends \<^verbatim>\<open>list_of_nodes[:-1]\<close>, which is \<open>[D]\<close>.
\<close>

theorem scenario_three_ways_repeats_junction:
  "stitch
     [\<lparr>r_way = 1, r_begin = 101, r_end = 103\<rparr>,
      \<lparr>r_way = 2, r_begin = 103, r_end = 104\<rparr>,
      \<lparr>r_way = 3, r_begin = 105, r_end = 104\<rparr>]
     [[101, 102, 103], [103, 104], [105, 104]] 101
   = Some (Inr [101, 102, 103, 104, 104])"
  by code_simp

text \<open>
  Claim C1. A chain of two ways sharing the point 102, walked from its end 101: the
  specification expects every point once, in walk order, that is \<open>[101, 102, 103]\<close>.
  The second way is stored as \<open>[103, 102]\<close> and is taken reversed; the code returns
  \<open>[101, 102, 102]\<close>, with 102 twice and without 103.
\<close>

theorem chain_with_reversed_way_loses_end:
  "stitch
     [\<lparr>r_way = 1, r_begin = 101, r_end = 102\<rparr>,
      \<lparr>r_way = 2, r_begin = 103, r_end = 102\<rparr>]
     [[101, 102], [103, 102]] 101
   = Some (Inr [101, 102, 102])"
  by code_simp

text \<open>
  Claim C2. A step that matches a row by its end point: after way 7 the current point is
  203 and way 8, stored as \<open>[206, 205, 204, 203]\<close>, is found in the end column. The
  specification expects the points \<open>204, 205, 206\<close> to be appended (the reversed list
  without its first element). The code appends \<open>203, 204, 205\<close> (the reversed list
  without its last element): the junction 203 is repeated and 206, the new current
  point, is missing from the track.
\<close>

theorem reversed_step_appends_all_but_last:
  "find_way [\<lparr>r_way = 7, r_begin = 201, r_end = 203\<rparr>, \<lparr>r_way = 8, r_begin = 206, r_end = 203\<rparr>]
     (Some [7]) 203 = Some (True, [8]) \<and>
   track_step [\<lparr>r_way = 7, r_begin = 201, r_end = 203\<rparr>, \<lparr>r_way = 8, r_begin = 206, r_end = 203\<rparr>]
     [[201, 202, 203], [206, 205, 204, 203]] True [8] [201, 202, 203]
   = Inr (206, [201, 202, 203, 203, 204, 205])"
  by code_simp

text \<open>
  Claim C4. A junction: after way 1 the current point 102 is the begin of way 2 and of
  way 3. The specification expects way 2, the earlier row, to be taken, which would give
  \<open>[101, 102, 103]\<close>. In the code \<^verbatim>\<open>check_node\<close> returns both way ids and
  \<^verbatim>\<open>get_segment\<close> applies \<^verbatim>\<open>int\<close> to that two-element series outside the
  \<^verbatim>\<open>try\<close>: \<^verbatim>\<open>create_track_points\<close> ends with a \<^verbatim>\<open>TypeError\<close>.
\<close>

theorem junction_raises_type_error:
  "stitch
     [\<lparr>r_way = 1, r_begin = 101, r_end = 102\<rparr>,
      \<lparr>r_way = 2, r_begin = 102, r_end = 103\<rparr>,
      \<lparr>r_way = 3, r_begin = 102, r_end = 104\<rparr>]
     [[101, 102], [102, 103], [102, 104]] 101
   = Some (Inl TypeError)"
  by code_simp

text \<open>
  Claim C5. The specification says that the reconstruction never raises. Here ways 12
  and 13 both end in 302, the point reached over way 11; the search of the end column
  finds both, and the reconstruction ends with a \<^verbatim>\<open>TypeError\<close> instead of a track.
\<close>

theorem two_ways_into_one_node_raise:
  "stitch
     [\<lparr>r_way = 11, r_begin = 301, r_end = 302\<rparr>,
      \<lparr>r_way = 12, r_begin = 303, r_end = 302\<rparr>,
      \<lparr>r_way = 13, r_begin = 304, r_end = 302\<rparr>]
     [[301, 302], [303, 302], [304, 302]] 301
   = Some (Inl TypeError)"
  by code_simp

section \<open>A member that cannot be fetched\<close>







section \<open>The loop writes to no list it was given\<close>

lemma frame_refl: "frame t h h"
  by (simp add: frame_def)

lemma frame_trans: "frame t h h1 \<Longrightarrow> frame t h1 h2 \<Longrightarrow> frame t h h2"
  by (auto simp: frame_def)

lemma get_nodes_h_frame:
  "get_nodes_h nodes seg reverse h = Inr (l, h1) \<Longrightarrow>
   l = next_addr h \<and> next_addr h1 = Suc (next_addr h) \<and> (\<forall>a<next_addr h. cells h1 a = cells h a) \<and>
   seg < length nodes \<and>
   cells h1 l = (if reverse then rev (cells h (nodes ! seg)) else cells h (nodes ! seg))"
  by (auto simp: get_nodes_h_def new_list_def list_reverse_def split: if_splits)

lemma extend_track_points_h_frame:
  "extend_track_points_h t l reverse h = (t', h') \<Longrightarrow> t < next_addr h \<Longrightarrow>
   t' = t \<and> next_addr h' = Suc (next_addr h) \<and> (\<forall>a<next_addr h. a \<noteq> t \<longrightarrow> cells h' a = cells h a) \<and>
   cells h' t = extend_track_points (cells h t) (cells h l) reverse"
  by (auto simp: extend_track_points_h_def extend_track_points_def new_list_def list_extend_def)

lemma track_step_h_sound:
  assumes "track_step_h df nodes reverse way t h = Inr (cn, t', h')" and "t < next_addr h"
  shows "t' = t \<and> frame t h h' \<and>
         track_step df (map (cells h) nodes) reverse way (cells h t) = Inr (cn, cells h' t)"
proof -
  from assms(1) obtain seg l h1 where
    seg: "get_segment df way = Inr seg" and
    gn: "get_nodes_h nodes seg reverse h = Inr (l, h1)" and
    nl: "get_node_list (cells h1 l) = Inr cn" and
    ex: "extend_track_points_h t l reverse h1 = (t', h')"
    by (auto simp: track_step_h_def split: sum.splits prod.splits)
  note g = get_nodes_h_frame[OF gn]
  from g assms(2) have t1: "t < next_addr h1" by simp
  note e = extend_track_points_h_frame[OF ex t1]
  from g assms(2) have ct: "cells h1 t = cells h t" by simp
  have fr: "frame t h h'" using g e by (auto simp: frame_def)
  have "get_nodes (map (cells h) nodes) seg reverse = Inr (cells h1 l)"
    using g by (auto simp: get_nodes_def Let_def)
  then have "track_step df (map (cells h) nodes) reverse way (cells h t) = Inr (cn, cells h' t)"
    using seg nl e ct by (simp add: track_step_def)
  with e fr show ?thesis by simp
qed

lemma track_step_h_error:
  assumes "track_step_h df nodes reverse way t h = Inl e"
  shows "track_step df (map (cells h) nodes) reverse way (cells h t) = Inl e"
proof (cases "get_segment df way")
  case (Inl e')
  with assms show ?thesis by (simp add: track_step_h_def track_step_def)
next
  case (Inr seg)
  show ?thesis
  proof (cases "get_nodes_h nodes seg reverse h")
    case (Inl e')
    then have "\<not> seg < length nodes \<and> e' = IndexError"
      by (auto simp: get_nodes_h_def split: if_splits prod.splits)
    with assms Inr Inl show ?thesis
      by (simp add: track_step_h_def track_step_def get_nodes_def)
  next
    case gn: (Inr p)
    obtain l h1 where p: "p = (l, h1)" by (cases p)
    note g = get_nodes_h_frame[OF gn[unfolded p]]
    have pn: "get_nodes (map (cells h) nodes) seg reverse = Inr (cells h1 l)"
      using g by (auto simp: get_nodes_def Let_def)
    from assms Inr gn p have "get_node_list (cells h1 l) = Inl e"
      by (auto simp: track_step_h_def split: sum.splits prod.splits)
    with Inr pn show ?thesis by (simp add: track_step_def)
  qed
qed


lemma refs_ok_frame:
  "refs_ok nodes t h \<Longrightarrow> frame t h h' \<Longrightarrow>
   refs_ok nodes t h' \<and> map (cells h') nodes = map (cells h) nodes"
  by (auto simp: refs_ok_def frame_def)

lemma track_loop_h_frame:
  "track_loop_h df nodes cw cn t h = Some y \<Longrightarrow> t < next_addr h \<longrightarrow> frame t h (snd y)"
proof (induction df nodes cw cn t h y rule: track_loop_h.raw_induct[rotated 1, consumes 1])
  case (1 loop df nodes cw cn t h y)
  show ?case
  proof (cases "find_way df cw cn")
    case None
    with 1(2) show ?thesis by (auto simp: frame_refl)
  next
    case (Some p)
    obtain reverse way where p: "p = (reverse, way)" by (cases p)
    show ?thesis
    proof (cases "track_step_h df nodes reverse way t h")
      case (Inl e)
      with 1(2) Some p show ?thesis by (auto simp: frame_refl)
    next
      case (Inr q)
      obtain cn' t' h1 where q: "q = (cn', t', h1)" by (cases q)
      from 1(2) Some p Inr q have rec: "loop df nodes (Some way) cn' t' h1 = Some y" by simp
      show ?thesis
      proof
        assume t: "t < next_addr h"
        from track_step_h_sound[OF Inr[unfolded q] t]
        have t': "t' = t" and fr: "frame t h h1" by simp_all
        from fr t have "t < next_addr h1" by (simp add: frame_def)
        with 1(1)[OF rec] t' have "frame t h1 (snd y)" by simp
        with fr show "frame t h (snd y)" by (rule frame_trans)
      qed
    qed
  qed
qed

lemma track_loop_h_refines:
  "track_loop_h df nodes cw cn t h = Some y \<Longrightarrow>
   refs_ok nodes t h \<longrightarrow>
   track_loop df (map (cells h) nodes) cw cn (cells h t) =
     Some (track_of y)"
proof (induction df nodes cw cn t h y rule: track_loop_h.raw_induct[rotated 1, consumes 1])
  case (1 loop df nodes cw cn t h y)
  show ?case
  proof (cases "find_way df cw cn")
    case None
    with 1(2) show ?thesis by (subst track_loop.simps) (auto simp: track_of_def)
  next
    case (Some p)
    obtain reverse way where p: "p = (reverse, way)" by (cases p)
    show ?thesis
    proof (cases "track_step_h df nodes reverse way t h")
      case (Inl e)
      from track_step_h_error[OF Inl] 1(2) Some p Inl show ?thesis
        by (subst track_loop.simps) (auto simp: track_of_def)
    next
      case (Inr q)
      obtain cn' t' h1 where q: "q = (cn', t', h1)" by (cases q)
      from 1(2) Some p Inr q have rec: "loop df nodes (Some way) cn' t' h1 = Some y" by simp
      show ?thesis
      proof
        assume ok: "refs_ok nodes t h"
        then have t: "t < next_addr h" by (simp add: refs_ok_def)
        from track_step_h_sound[OF Inr[unfolded q] t]
        have t': "t' = t" and fr: "frame t h h1"
          and st: "track_step df (map (cells h) nodes) reverse way (cells h t) = Inr (cn', cells h1 t)"
          by simp_all
        from refs_ok_frame[OF ok fr]
        have ok1: "refs_ok nodes t h1" and same: "map (cells h1) nodes = map (cells h) nodes"
          by simp_all
        from 1(1)[OF rec] t' ok1 same
        have "track_loop df (map (cells h) nodes) (Some way) cn' (cells h1 t) =
            Some (track_of y)" by simp
        with Some p st
        show "track_loop df (map (cells h) nodes) cw cn (cells h t) =
            Some (track_of y)"
          by (subst track_loop.simps) simp
      qed
    qed
  qed
qed

lemma track_loop_h_returns:
  "track_loop df ns cw cn tr = Some r \<Longrightarrow>
   \<forall>nodes t h. ns = map (cells h) nodes \<and> tr = cells h t \<and> refs_ok nodes t h \<longrightarrow>
     (\<exists>y. track_loop_h df nodes cw cn t h = Some y)"
proof (induction df ns cw cn tr r rule: track_loop.raw_induct[rotated 1, consumes 1])
  case (1 loop df ns cw cn tr r)
  show ?case
  proof (intro allI impI, elim conjE)
    fix nodes t h
    assume ns: "ns = map (cells h) nodes" and tr: "tr = cells h t" and ok: "refs_ok nodes t h"
    show "\<exists>y. track_loop_h df nodes cw cn t h = Some y"
    proof (cases "find_way df cw cn")
      case None
      then show ?thesis by (subst track_loop_h.simps) simp
    next
      case (Some p)
      obtain reverse way where p: "p = (reverse, way)" by (cases p)
      show ?thesis
      proof (cases "track_step_h df nodes reverse way t h")
        case (Inl e)
        with Some p show ?thesis by (subst track_loop_h.simps) simp
      next
        case (Inr q)
        obtain cn' t' h1 where q: "q = (cn', t', h1)" by (cases q)
        from ok have t: "t < next_addr h" by (simp add: refs_ok_def)
        from track_step_h_sound[OF Inr[unfolded q] t]
        have t': "t' = t" and fr: "frame t h h1"
          and st: "track_step df (map (cells h) nodes) reverse way (cells h t) = Inr (cn', cells h1 t)"
          by simp_all
        from refs_ok_frame[OF ok fr]
        have ok1: "refs_ok nodes t h1" and same: "map (cells h1) nodes = map (cells h) nodes"
          by simp_all
        from 1(2) Some p st ns tr
        have "loop df ns (Some way) cn' (cells h1 t) = Some r" by simp
        from 1(1)[OF this] ns same ok1
        have "\<exists>y. track_loop_h df nodes (Some way) cn' t h1 = Some y" by auto
        with Some p Inr q t' show ?thesis by (subst track_loop_h.simps) simp
      qed
    qed
  qed
qed


lemma stitch_h_returns:
  assumes "stitch df (map (cells h) l_nodes) start_node = Some r"
    and refs: "\<forall>a\<in>set l_nodes. a < next_addr h"
  shows "\<exists>y. stitch_h df l_nodes start_node h = Some y"
proof -
  let ?t = "next_addr h"
  let ?h1 = "h\<lparr>cells := (cells h)(?t := [start_node]), next_addr := Suc ?t\<rparr>"
  have ok: "refs_ok l_nodes ?t ?h1" using refs by (auto simp: refs_ok_def)
  have same: "map (cells h) l_nodes = map (cells ?h1) l_nodes" using refs by auto
  from assms(1) have "track_loop df (map (cells h) l_nodes) None start_node [start_node] = Some r"
    by (simp add: stitch_def)
  then have "track_loop df (map (cells ?h1) l_nodes) None start_node (cells ?h1 ?t) = Some r"
    unfolding same by simp
  from track_loop_h_returns[OF this] ok
  have "\<exists>y. track_loop_h df l_nodes None start_node ?t ?h1 = Some y" by blast
  then show ?thesis by (simp add: stitch_h_def new_list_def)
qed

text \<open>
  Claim C10. The reconstruction does not change what it was given: when the loop
  returns, every list object that existed before the call, and so every node list of the
  table, holds what it held before; a reversed traversal reverses a copy. The data frame
  is not written at all: the loop reads it through selections only. The run over the
  store returns the track that the loop on values computes.
\<close>

theorem reconstruction_leaves_lists_unchanged:
  assumes run: "stitch_h df l_nodes start_node h = Some (r, h')"
    and refs: "\<forall>a\<in>set l_nodes. a < next_addr h"
  shows "(\<forall>a<next_addr h. cells h' a = cells h a) \<and>
    map (cells h') l_nodes = map (cells h) l_nodes \<and>
    stitch df (map (cells h) l_nodes) start_node = Some (track_of (r, h'))"
proof -
  let ?t = "next_addr h"
  let ?h1 = "h\<lparr>cells := (cells h)(?t := [start_node]), next_addr := Suc ?t\<rparr>"
  from run have loop: "track_loop_h df l_nodes None start_node ?t ?h1 = Some (r, h')"
    by (simp add: stitch_h_def new_list_def)
  have t1: "?t < next_addr ?h1" by simp
  from track_loop_h_frame[OF loop] t1 have fr: "frame ?t ?h1 h'" by simp
  have old: "cells h' a = cells h a" if "a < next_addr h" for a
    using fr that by (simp add: frame_def)
  have ok: "refs_ok l_nodes ?t ?h1" using refs by (auto simp: refs_ok_def)
  have same: "map (cells ?h1) l_nodes = map (cells h) l_nodes" using refs by auto
  from track_loop_h_refines[OF loop] ok
  have "track_loop df (map (cells ?h1) l_nodes) None start_node (cells ?h1 ?t) =
      Some (track_of (r, h'))" by blast
  then have "stitch df (map (cells h) l_nodes) start_node = Some (track_of (r, h'))"
    unfolding same by (simp add: stitch_def)
  moreover have "map (cells h') l_nodes = map (cells h) l_nodes"
    using refs old by auto
  ultimately show ?thesis using old by simp
qed

text \<open>The statement at the example store: the three node lists are as before.\<close>

theorem reconstruction_leaves_lists_unchanged_witness:
  "\<exists>r h'. stitch_h ex_frame [0, 1, 2] 101 ex_heap = Some (r, h') \<and>
     cells h' 0 = [101, 102, 103] \<and> cells h' 1 = [103, 104] \<and> cells h' 2 = [105, 104] \<and>
     track_of (r, h') = Inr [101, 102, 103, 104, 104]"
proof -
  have refs: "\<forall>a\<in>set [0, 1, 2]. a < next_addr ex_heap" by (simp add: ex_heap_def)
  have pure: "stitch ex_frame (map (cells ex_heap) [0, 1, 2]) 101 =
      Some (Inr [101, 102, 103, 104, 104])"
    by code_simp
  from stitch_h_returns[OF pure refs] obtain r h'
    where run: "stitch_h ex_frame [0, 1, 2] 101 ex_heap = Some (r, h')" by auto
  from reconstruction_leaves_lists_unchanged[OF run refs] pure
  have "cells h' 0 = cells ex_heap 0 \<and> cells h' 1 = cells ex_heap 1 \<and> cells h' 2 = cells ex_heap 2 \<and>
      track_of (r, h') = Inr [101, 102, 103, 104, 104]"
    by (simp add: ex_heap_def)
  with run show ?thesis by (simp add: ex_heap_def)
qed

end
